theory Spec2Isabelle
  imports Main
begin

section \<open>Heartbeat change tracking (api/v1/helpers/verbs/heartbeatUtils.js)\<close>

text \<open>
  The module keeps, for every collector, three redis sets of generator ids: the
  generators added, deleted and updated since the collector's last heartbeat.
  The embedding passes the redis state explicitly. Redis runs the commands in the
  order in which they are sent, so a command takes effect where it is sent.
\<close>

subsection \<open>Values\<close>

text \<open>
  The variables \<open>change\<close> and \<open>undoChange\<close> hold one of the three strings, the
  number \<open>NOCHANGE\<close>, or nothing at all (\<open>let undoChange;\<close>).
\<close>

datatype jsval = JStr string | JNum int | JUndefined

definition ADDED :: string where
  "ADDED = ''added''"

definition DELETED :: string where
  "DELETED = ''deleted''"

definition UPDATED :: string where
  "UPDATED = ''updated''"

definition NOCHANGE :: jsval where
  "NOCHANGE = JNum 0"

text \<open>
  The generator object; only its \<open>id\<close> field is read. Ids are strings, as the
  members that redis returns are.
\<close>

record generator =
  generator_id :: string

subsection \<open>The redis client\<close>

text \<open>
  The client is not part of the module. Its state is the content of every key (a key
  that does not exist holds the empty set, as in redis) together with the commands
  sent so far. Whether a command fails is not decided by the module either: it is the
  parameter \<open>fl\<close>, which says for each command whether redis rejects it. A rejected
  command changes no key.
\<close>

datatype command =
    MULTI_SMEMBERS string string string
  | SREM string string
  | SADD string string
  | DEL string string string

datatype error = StoreError

record redis =
  db :: "string \<Rightarrow> string set"
  sent :: "command list"

type_synonym faults = "command \<Rightarrow> bool"

definition noFaults :: faults where
  "noFaults = (\<lambda>c. False)"

definition send :: "command \<Rightarrow> redis \<Rightarrow> redis" where
  "send c r = r\<lparr>sent := sent r @ [c]\<rparr>"

text \<open>\<open>multi().smembers(k1).smembers(k2).smembers(k3).execAsync()\<close>: one atomic batch.\<close>

definition multi_smembers_execAsync ::
  "faults \<Rightarrow> string \<Rightarrow> string \<Rightarrow> string \<Rightarrow> redis \<Rightarrow> (error + string set list) \<times> redis" where
  "multi_smembers_execAsync fl k1 k2 k3 r =
     (let c = MULTI_SMEMBERS k1 k2 k3; r' = send c r
      in if fl c then (Inl StoreError, r')
         else (Inr [db r k1, db r k2, db r k3], r'))"

definition sremAsync :: "faults \<Rightarrow> string \<Rightarrow> string \<Rightarrow> redis \<Rightarrow> (error + unit) \<times> redis" where
  "sremAsync fl key member r =
     (let c = SREM key member; r' = send c r
      in if fl c then (Inl StoreError, r')
         else (Inr (), r'\<lparr>db := (db r')(key := db r' key - {member})\<rparr>))"

definition saddAsync :: "faults \<Rightarrow> string \<Rightarrow> string \<Rightarrow> redis \<Rightarrow> (error + unit) \<times> redis" where
  "saddAsync fl key member r =
     (let c = SADD key member; r' = send c r
      in if fl c then (Inl StoreError, r')
         else (Inr (), r'\<lparr>db := (db r')(key := insert member (db r' key))\<rparr>))"

definition delAsync :: "faults \<Rightarrow> string \<Rightarrow> string \<Rightarrow> string \<Rightarrow> redis \<Rightarrow> (error + unit) \<times> redis" where
  "delAsync fl k1 k2 k3 r =
     (let c = DEL k1 k2 k3; r' = send c r
      in if fl c then (Inl StoreError, r')
         else (Inr (), r'\<lparr>db := (\<lambda>k. if k = k1 \<or> k = k2 \<or> k = k3 then {} else db r' k)\<rparr>))"

subsection \<open>The module's functions\<close>

text \<open>\<open>getKey\<close> (lines 94-96): the template string.\<close>

definition getKey :: "string \<Rightarrow> string \<Rightarrow> string" where
  "getKey collectorName changeType =
     ''heartbeat::generatorChanges::'' @ collectorName @ ''::'' @ changeType"

record changedIds =
  added :: "string set"
  deleted :: "string set"
  updated :: "string set"

text \<open>\<open>getChangedIds\<close> (lines 27-38).\<close>

definition getChangedIds :: "faults \<Rightarrow> string \<Rightarrow> redis \<Rightarrow> (error + changedIds) \<times> redis" where
  "getChangedIds fl collectorName r =
     (case multi_smembers_execAsync fl (getKey collectorName ADDED)
             (getKey collectorName DELETED) (getKey collectorName UPDATED) r of
        (Inl e, r') \<Rightarrow> (Inl e, r')
      | (Inr replies, r') \<Rightarrow>
          (Inr \<lparr>added = replies ! 0, deleted = replies ! 1, updated = replies ! 2\<rparr>, r'))"

text \<open>
  \<open>removeFromSet\<close> (lines 48-55). The test \<open>===\<close> against the three strings holds
  for no number and not for \<open>undefined\<close>.
\<close>

definition removeFromSet ::
  "faults \<Rightarrow> string \<Rightarrow> jsval \<Rightarrow> string \<Rightarrow> redis \<Rightarrow> (error + unit) \<times> redis" where
  "removeFromSet fl collectorName change genId r =
     (case change of
        JStr k \<Rightarrow>
          if k = ADDED \<or> k = DELETED \<or> k = UPDATED
          then sremAsync fl (getKey collectorName k) genId r
          else (Inr (), r)
      | _ \<Rightarrow> (Inr (), r))"

text \<open>\<open>addToSet\<close> (lines 65-72).\<close>

definition addToSet ::
  "faults \<Rightarrow> string \<Rightarrow> jsval \<Rightarrow> string \<Rightarrow> redis \<Rightarrow> (error + unit) \<times> redis" where
  "addToSet fl collectorName change genId r =
     (case change of
        JStr k \<Rightarrow>
          if k = ADDED \<or> k = DELETED \<or> k = UPDATED
          then saddAsync fl (getKey collectorName k) genId r
          else (Inr (), r)
      | _ \<Rightarrow> (Inr (), r))"

text \<open>\<open>resetChanges\<close> (lines 80-85).\<close>

definition resetChanges :: "faults \<Rightarrow> string \<Rightarrow> redis \<Rightarrow> (error + unit) \<times> redis" where
  "resetChanges fl collectorName r =
     (let addedKey = getKey collectorName ADDED;
          deletedKey = getKey collectorName DELETED;
          updatedKey = getKey collectorName UPDATED
      in delAsync fl addedKey deletedKey updatedKey r)"

text \<open>
  \<open>Array.from(new Set([...oldCollectors, ...newCollectors]))\<close> (line 112): a set
  keeps each name once, at the place of its first occurrence.
\<close>

definition allCollectors :: "string list \<Rightarrow> string list \<Rightarrow> string list" where
  "allCollectors oldCollectors newCollectors =
     rev (remdups (rev (oldCollectors @ newCollectors)))"

text \<open>\<open>Promise.all\<close>: rejected as soon as one of the promises is.\<close>

fun Promise_all :: "(error + 'a) list \<Rightarrow> error + 'a list" where
  "Promise_all [] = Inr []"
| "Promise_all (Inl e # ps) = Inl e"
| "Promise_all (Inr v # ps) =
     (case Promise_all ps of Inl e \<Rightarrow> Inl e | Inr vs \<Rightarrow> Inr (v # vs))"

text \<open>\<open>allCollectors.map(name => getChangedIds(name))\<close> (line 114).\<close>

fun mapGetChangedIds ::
  "faults \<Rightarrow> string list \<Rightarrow> redis \<Rightarrow> (error + changedIds) list \<times> redis" where
  "mapGetChangedIds fl [] r = ([], r)"
| "mapGetChangedIds fl (name # names) r =
     (let (p, r1) = getChangedIds fl name r;
          (ps, r2) = mapGetChangedIds fl names r1
      in (p # ps, r2))"

text \<open>
  Lines 120-149 of the callback: the change of this collector and the earlier change
  to undo, as the pair \<open>(undoChange, change)\<close>.
\<close>

definition determineChange ::
  "string \<Rightarrow> string list \<Rightarrow> string list \<Rightarrow> changedIds \<Rightarrow> string \<Rightarrow> jsval \<times> jsval" where
  "determineChange genId oldCollectors newCollectors changed collectorName =
     (let inOld = collectorName \<in> set oldCollectors;
          inNew = collectorName \<in> set newCollectors;
          change0 = JUndefined;
          change1 = (if inOld \<and> \<not> inNew then JStr DELETED else change0);
          change2 = (if \<not> inOld \<and> inNew then JStr ADDED else change1);
          change = (if inOld \<and> inNew then JStr UPDATED else change2);
          alreadyAdded = genId \<in> added changed;
          alreadyDeleted = genId \<in> deleted changed;
          alreadyUpdated = genId \<in> updated changed;
          alreadyChanged = alreadyAdded \<or> alreadyDeleted \<or> alreadyUpdated
      in if alreadyChanged then
           if alreadyAdded \<and> change = JStr DELETED then (JStr ADDED, NOCHANGE)
           else if alreadyDeleted \<and> change = JStr ADDED then (JStr DELETED, JStr UPDATED)
           else if alreadyUpdated \<and> change = JStr DELETED then (JStr UPDATED, JStr DELETED)
           else (JUndefined, NOCHANGE)
         else (JUndefined, change))"

text \<open>
  The callback of \<open>forEach\<close> (lines 117-154) for one collector: the two commands
  of lines 152 and 153 are sent, first the removal, then the addition, and their
  promises are pushed. Nothing waits for a promise before the next command is sent.
\<close>

definition collectorCallback ::
  "faults \<Rightarrow> string \<Rightarrow> string list \<Rightarrow> string list \<Rightarrow> changedIds \<Rightarrow> string \<Rightarrow> redis
     \<Rightarrow> (error + unit) list \<times> redis" where
  "collectorCallback fl genId oldCollectors newCollectors changed collectorName r =
     (let (undoChange, change) =
            determineChange genId oldCollectors newCollectors changed collectorName;
          (p1, r1) = removeFromSet fl collectorName undoChange genId r;
          (p2, r2) = addToSet fl collectorName change genId r1
      in ([p1, p2], r2))"

text \<open>\<open>collectorChanges.forEach((changedIds, i) => ...)\<close> with \<open>allCollectors[i]\<close>.\<close>

fun forEachCollector ::
  "faults \<Rightarrow> string \<Rightarrow> string list \<Rightarrow> string list \<Rightarrow> (changedIds \<times> string) list \<Rightarrow> redis
     \<Rightarrow> (error + unit) list \<times> redis" where
  "forEachCollector fl genId oldCollectors newCollectors [] r = ([], r)"
| "forEachCollector fl genId oldCollectors newCollectors ((changed, collectorName) # rest) r =
     (let (ps, r1) =
            collectorCallback fl genId oldCollectors newCollectors changed collectorName r;
          (qs, r2) = forEachCollector fl genId oldCollectors newCollectors rest r1
      in (ps @ qs, r2))"

text \<open>
  \<open>trackGeneratorChanges\<close> (lines 110-158) runs in two parts. The first part
  (lines 111-114) runs when the function is called: the reads of all collectors are
  sent, and the function returns.
\<close>

definition trackGeneratorChanges_reads ::
  "faults \<Rightarrow> string list \<Rightarrow> string list \<Rightarrow> redis \<Rightarrow> (error + changedIds) list \<times> redis" where
  "trackGeneratorChanges_reads fl oldCollectors newCollectors r =
     mapGetChangedIds fl (allCollectors oldCollectors newCollectors) r"

text \<open>
  The second part (lines 115-157) is the callback of \<open>then\<close>. It runs later, when
  the replies of the reads have arrived, on the redis of that moment; when a read is
  rejected it does not run.
\<close>

definition trackGeneratorChanges_then ::
  "faults \<Rightarrow> generator \<Rightarrow> string list \<Rightarrow> string list \<Rightarrow> (error + changedIds) list \<Rightarrow> redis
     \<Rightarrow> (error + unit list) \<times> redis" where
  "trackGeneratorChanges_then fl gen oldCollectors newCollectors reads r1 =
     (let genId = generator_id gen;
          names = allCollectors oldCollectors newCollectors
      in case Promise_all reads of
           Inl e \<Rightarrow> (Inl e, r1)
         | Inr collectorChanges \<Rightarrow>
             (let (promises, r2) =
                    forEachCollector fl genId oldCollectors newCollectors
                      (zip collectorChanges names) r1
              in (Promise_all promises, r2)))"

text \<open>
  The promise chain of lines 114-157 of one call taken alone: no other command
  reaches redis between the reads and the callback.
\<close>

definition trackGeneratorChanges_chain ::
  "faults \<Rightarrow> generator \<Rightarrow> string list \<Rightarrow> string list \<Rightarrow> redis \<Rightarrow> (error + unit list) \<times> redis" where
  "trackGeneratorChanges_chain fl gen oldCollectors newCollectors r =
     (let (reads, r1) = trackGeneratorChanges_reads fl oldCollectors newCollectors r
      in trackGeneratorChanges_then fl gen oldCollectors newCollectors reads r1)"

text \<open>
  One call of \<open>trackGeneratorChanges\<close> taken alone: the value the caller gets, and
  redis once the chain that the call has started is settled. The function has no
  \<open>return\<close>: the chain is started and dropped, and the caller gets \<open>undefined\<close>
  when the reads are sent, before any write. A second call that starts only after the
  chain of the first is settled is the composition of two such calls.
\<close>

definition trackGeneratorChanges ::
  "faults \<Rightarrow> generator \<Rightarrow> string list \<Rightarrow> string list \<Rightarrow> redis \<Rightarrow> jsval \<times> redis" where
  "trackGeneratorChanges fl gen oldCollectors newCollectors r =
     (JUndefined, snd (trackGeneratorChanges_chain fl gen oldCollectors newCollectors r))"

text \<open>
  Two calls for the same generator made one right after the other, the second without
  waiting for the first (the caller is given nothing to wait for): both first parts run,
  each call returning once its reads are sent, and then the two callbacks run in the
  order of the calls.
\<close>

definition backToBack ::
  "faults \<Rightarrow> generator \<Rightarrow> string list \<Rightarrow> string list \<Rightarrow> string list \<Rightarrow> string list \<Rightarrow> redis
     \<Rightarrow> redis" where
  "backToBack fl gen old1 new1 old2 new2 r =
     (let (reads1, r1) = trackGeneratorChanges_reads fl old1 new1 r;
          (reads2, r2) = trackGeneratorChanges_reads fl old2 new2 r1;
          (p1, r3) = trackGeneratorChanges_then fl gen old1 new1 reads1 r2;
          (p2, r4) = trackGeneratorChanges_then fl gen old2 new2 reads2 r3
      in r4)"

text \<open>The pending set of one kind of one collector, as stored.\<close>

definition pending :: "redis \<Rightarrow> string \<Rightarrow> string \<Rightarrow> string set" where
  "pending r collectorName kind = db r (getKey collectorName kind)"

subsection \<open>Notions used in the statements\<close>

text \<open>The three kinds of change that name a redis set.\<close>

definition kinds :: "string set" where
  "kinds = {ADDED, DELETED, UPDATED}"

text \<open>What \<open>getChangedIds\<close> reads for a collector when the batch succeeds.\<close>

definition snapshot :: "(string \<Rightarrow> string set) \<Rightarrow> string \<Rightarrow> changedIds" where
  "snapshot d c =
     \<lparr>added = d (getKey c ADDED), deleted = d (getKey c DELETED), updated = d (getKey c UPDATED)\<rparr>"

text \<open>The command \<open>getChangedIds\<close> sends for a collector.\<close>

definition readCommand :: "string \<Rightarrow> command" where
  "readCommand c = MULTI_SMEMBERS (getKey c ADDED) (getKey c DELETED) (getKey c UPDATED)"

text \<open>The effect of the callback on the keys alone.\<close>

definition applyCallback ::
  "faults \<Rightarrow> string \<Rightarrow> string list \<Rightarrow> string list \<Rightarrow> changedIds \<Rightarrow> string
     \<Rightarrow> (string \<Rightarrow> string set) \<Rightarrow> (string \<Rightarrow> string set)" where
  "applyCallback fl e old new ch c d =
     db (snd (collectorCallback fl e old new ch c \<lparr>db = d, sent = []\<rparr>))"

text \<open>The id \<open>x\<close> is in at most one of the three pending sets of collector \<open>c\<close>.\<close>

definition atMostOne :: "redis \<Rightarrow> string \<Rightarrow> string \<Rightarrow> bool" where
  "atMostOne r c x =
     (\<not> (x \<in> pending r c ADDED \<and> x \<in> pending r c DELETED) \<and>
      \<not> (x \<in> pending r c ADDED \<and> x \<in> pending r c UPDATED) \<and>
      \<not> (x \<in> pending r c DELETED \<and> x \<in> pending r c UPDATED))"

text \<open>Concrete inputs for the examples: a generator, and a redis with no key.\<close>

definition exGenerator :: generator where
  "exGenerator = \<lparr>generator_id = ''g1''\<rparr>"

definition exEmpty :: redis where
  "exEmpty = \<lparr>db = (\<lambda>k. {}), sent = []\<rparr>"

text \<open>A redis where the example generator is pending as updated for collector \<open>A\<close>.\<close>

definition exUpdated :: redis where
  "exUpdated = \<lparr>db = (\<lambda>k. {})(getKey ''A'' UPDATED := {''g1''}), sent = []\<rparr>"

text \<open>
  The commands the callback sends for one collector: one \<open>SREM\<close> when
  \<open>undoChange\<close> names a set, then one \<open>SADD\<close> when \<open>change\<close> does.
\<close>

definition kindCommand :: "(string \<Rightarrow> string \<Rightarrow> command) \<Rightarrow> string \<Rightarrow> jsval \<Rightarrow> string \<Rightarrow> command list" where
  "kindCommand cmd c v e =
     (case v of JStr k \<Rightarrow> if k \<in> kinds then [cmd (getKey c k) e] else [] | _ \<Rightarrow> [])"

definition writeCommands ::
  "string \<Rightarrow> string list \<Rightarrow> string list \<Rightarrow> changedIds \<Rightarrow> string \<Rightarrow> command list" where
  "writeCommands e old new chg c =
     kindCommand SREM c (fst (determineChange e old new chg c)) e @
     kindCommand SADD c (snd (determineChange e old new chg c)) e"

text \<open>
  A redis that rejects one command only: adding the example generator to the deleted
  set of collector \<open>A\<close>.
\<close>

definition exFaults :: faults where
  "exFaults = (\<lambda>c. c = SADD (getKey ''A'' DELETED) ''g1'')"

text \<open>
  A redis that rejects one command only: removing the example generator from the
  updated set of collector \<open>A\<close>.
\<close>

definition exSremFaults :: faults where
  "exSremFaults = (\<lambda>c. c = SREM (getKey ''A'' UPDATED) ''g1'')"

section \<open>Properties\<close>

subsection \<open>Keys\<close>


lemmas kind_defs = ADDED_def DELETED_def UPDATED_def

lemma kinds_distinct: "ADDED \<noteq> DELETED" "ADDED \<noteq> UPDATED" "DELETED \<noteq> UPDATED"
  "DELETED \<noteq> ADDED" "UPDATED \<noteq> ADDED" "UPDATED \<noteq> DELETED"
  by (simp_all add: kind_defs)

lemma getKey_same_collector: "getKey c k = getKey c k' \<longleftrightarrow> k = k'"
  by (simp add: getKey_def)

lemma suffix_kind_neq:
  "c @ ''::added'' \<noteq> c' @ ''::deleted''"
  "c @ ''::added'' \<noteq> c' @ ''::updated''"
  "c @ ''::deleted'' \<noteq> c' @ ''::updated''"
proof -
  have r: "\<And>a b :: string. a = b \<Longrightarrow> rev a = rev b" by simp
  show "c @ ''::added'' \<noteq> c' @ ''::deleted''" by (rule notI, drule r) simp
  show "c @ ''::added'' \<noteq> c' @ ''::updated''" by (rule notI, drule r) simp
  show "c @ ''::deleted'' \<noteq> c' @ ''::updated''" by (rule notI, drule r) simp
qed

lemma getKey_inject:
  assumes "k \<in> kinds" "k' \<in> kinds"
  shows "getKey c k = getKey c' k' \<longleftrightarrow> c = c' \<and> k = k'"
  using assms suffix_kind_neq[of c c'] suffix_kind_neq[of c' c]
  by (auto simp: kinds_def kind_defs getKey_def)

lemma db_sremAsync:
  "db (snd (sremAsync fl key m r)) =
     (if fl (SREM key m) then db r else (db r)(key := db r key - {m}))"
  by (simp add: sremAsync_def send_def Let_def)

lemma db_saddAsync:
  "db (snd (saddAsync fl key m r)) =
     (if fl (SADD key m) then db r else (db r)(key := insert m (db r key)))"
  by (simp add: saddAsync_def send_def Let_def)

lemma db_removeFromSet:
  "db (snd (removeFromSet fl c u e r)) =
     (case u of
        JStr k \<Rightarrow> if k \<in> kinds \<and> \<not> fl (SREM (getKey c k) e)
                  then (db r)(getKey c k := db r (getKey c k) - {e}) else db r
      | _ \<Rightarrow> db r)"
  by (simp add: removeFromSet_def db_sremAsync kinds_def split: jsval.splits)

lemma db_addToSet:
  "db (snd (addToSet fl c u e r)) =
     (case u of
        JStr k \<Rightarrow> if k \<in> kinds \<and> \<not> fl (SADD (getKey c k) e)
                  then (db r)(getKey c k := insert e (db r (getKey c k))) else db r
      | _ \<Rightarrow> db r)"
  by (simp add: addToSet_def db_saddAsync kinds_def split: jsval.splits)

lemma db_collectorCallback:
  "db (snd (collectorCallback fl e old new ch c r)) =
     db (snd (addToSet fl c (snd (determineChange e old new ch c)) e
          (snd (removeFromSet fl c (fst (determineChange e old new ch c)) e r))))"
  by (simp add: collectorCallback_def split: prod.splits)

lemma db_callback_apply:
  "db (snd (collectorCallback fl e old new ch c r)) = applyCallback fl e old new ch c (db r)"
  by (simp add: applyCallback_def db_collectorCallback db_addToSet db_removeFromSet
      split: jsval.splits)

lemma applyCallback_frame:
  assumes "K \<notin> getKey c ` kinds"
  shows "applyCallback fl e old new ch c d K = d K"
  using assms
  by (auto simp: applyCallback_def db_collectorCallback db_addToSet db_removeFromSet
      split: jsval.splits)

lemma applyCallback_local:
  assumes "d K = d' K"
  shows "applyCallback fl e old new ch c d K = applyCallback fl e old new ch c d' K"
  using assms
  by (auto simp: applyCallback_def db_collectorCallback db_addToSet db_removeFromSet
      split: jsval.splits)

lemma applyCallback_other_id:
  assumes "x \<noteq> e"
  shows "x \<in> applyCallback fl e old new ch c d K \<longleftrightarrow> x \<in> d K"
  using assms
  by (auto simp: applyCallback_def db_collectorCallback db_addToSet db_removeFromSet
      split: jsval.splits)

lemma db_forEachCollector:
  "db (snd (forEachCollector fl e old new ps r)) =
     fold (\<lambda>(ch, c). applyCallback fl e old new ch c) ps (db r)"
proof (induction ps arbitrary: r)
  case Nil
  show ?case by simp
next
  case (Cons p ps)
  obtain ch c where p: "p = (ch, c)" by (cases p)
  have "snd (forEachCollector fl e old new (p # ps) r) =
        snd (forEachCollector fl e old new ps (snd (collectorCallback fl e old new ch c r)))"
    by (simp add: p case_prod_beta)
  then show ?case by (simp add: Cons.IH db_callback_apply p)
qed

lemma fold_apply_frame:
  assumes "\<forall>(ch, c) \<in> set ps. K \<notin> getKey c ` kinds"
  shows "fold (\<lambda>(ch, c). applyCallback fl e old new ch c) ps d K = d K"
  using assms
  by (induction ps arbitrary: d) (auto simp: applyCallback_frame)

lemma fold_apply_member:
  assumes "distinct (map snd ps)" "(ch, c) \<in> set ps" "K \<in> getKey c ` kinds"
  shows "fold (\<lambda>(ch, c). applyCallback fl e old new ch c) ps d K =
         applyCallback fl e old new ch c d K"
  using assms
proof (induction ps arbitrary: d)
  case Nil
  then show ?case by simp
next
  case (Cons p ps)
  obtain ch' c' where p: "p = (ch', c')" by (cases p)
  show ?case
  proof (cases "p = (ch, c)")
    case True
    have "c \<notin> snd ` set ps" using Cons.prems(1) True by auto
    then have "\<forall>(ch'', c'') \<in> set ps. K \<notin> getKey c'' ` kinds"
      using Cons.prems(3) by (force simp: getKey_inject)
    then show ?thesis using True by (simp add: fold_apply_frame)
  next
    case False
    then have mem: "(ch, c) \<in> set ps" using Cons.prems(2) by simp
    then have "c' \<noteq> c" using Cons.prems(1) p by force
    then have "K \<notin> getKey c' ` kinds" using Cons.prems(3) by (auto simp: getKey_inject)
    then have same: "applyCallback fl e old new ch' c' d K = d K"
      by (rule applyCallback_frame)
    have "fold (\<lambda>(ch, c). applyCallback fl e old new ch c) ps
            (applyCallback fl e old new ch' c' d) K =
          applyCallback fl e old new ch c (applyCallback fl e old new ch' c' d) K"
      using Cons.IH [OF _ mem Cons.prems(3)] Cons.prems(1) by simp
    also have "\<dots> = applyCallback fl e old new ch c d K"
      by (rule applyCallback_local) (rule same)
    finally show ?thesis by (simp add: p)
  qed
qed

lemma getChangedIds_eq:
  "getChangedIds fl c r =
     (if fl (readCommand c) then Inl StoreError else Inr (snapshot (db r) c),
      send (readCommand c) r)"
  by (simp add: getChangedIds_def multi_smembers_execAsync_def readCommand_def snapshot_def
      Let_def)

lemma db_send: "db (send c r) = db r"
  by (simp add: send_def)

lemma db_mapGetChangedIds: "db (snd (mapGetChangedIds fl names r)) = db r"
  by (induction names arbitrary: r) (simp_all add: getChangedIds_eq case_prod_beta db_send)

lemma fst_mapGetChangedIds:
  "fst (mapGetChangedIds fl names r) =
     map (\<lambda>n. if fl (readCommand n) then Inl StoreError else Inr (snapshot (db r) n)) names"
  by (induction names arbitrary: r) (simp_all add: getChangedIds_eq case_prod_beta db_send)

lemma Promise_all_reads:
  "Promise_all (map (\<lambda>n. if bad n then Inl StoreError else Inr (f n)) names) =
     (if \<exists>n \<in> set names. bad n then Inl StoreError else Inr (map f names))"
  by (induction names) auto

lemma set_allCollectors: "set (allCollectors old new) = set old \<union> set new"
  by (auto simp: allCollectors_def)

lemma distinct_allCollectors: "distinct (allCollectors old new)"
  by (simp add: allCollectors_def)

lemma zip_map_self: "zip (map f xs) xs = map (\<lambda>x. (f x, x)) xs"
  by (induction xs) simp_all

lemma chain_unfold:
  "trackGeneratorChanges_chain fl gen old new r =
     (let genId = generator_id gen;
          names = allCollectors old new;
          (reads, r1) = mapGetChangedIds fl names r
      in case Promise_all reads of
           Inl e \<Rightarrow> (Inl e, r1)
         | Inr collectorChanges \<Rightarrow>
             (let (promises, r2) =
                    forEachCollector fl genId old new (zip collectorChanges names) r1
              in (Promise_all promises, r2)))"
  by (simp add: trackGeneratorChanges_chain_def trackGeneratorChanges_reads_def
      trackGeneratorChanges_then_def Let_def case_prod_beta)

lemma db_chain:
  "db (snd (trackGeneratorChanges_chain fl g old new r)) =
     (if \<exists>n \<in> set old \<union> set new. fl (readCommand n) then db r
      else fold (\<lambda>(ch, c). applyCallback fl (generator_id g) old new ch c)
             (map (\<lambda>c. (snapshot (db r) c, c)) (allCollectors old new)) (db r))"
proof -
  obtain reads r1 where m: "mapGetChangedIds fl (allCollectors old new) r = (reads, r1)"
    by (cases "mapGetChangedIds fl (allCollectors old new) r")
  have r1: "db r1 = db r" using db_mapGetChangedIds [of fl "allCollectors old new" r] m by simp
  have reads: "Promise_all reads =
      (if \<exists>n \<in> set old \<union> set new. fl (readCommand n) then Inl StoreError
       else Inr (map (snapshot (db r)) (allCollectors old new)))"
    using fst_mapGetChangedIds [of fl "allCollectors old new" r] m
    by (simp add: Promise_all_reads set_allCollectors)
  show ?thesis
    by (simp add: chain_unfold Let_def m reads r1 case_prod_beta
        db_forEachCollector zip_map_self)
qed

lemma db_track_read_failed:
  assumes "\<exists>n \<in> set old \<union> set new. fl (readCommand n)"
  shows "db (snd (trackGeneratorChanges fl g old new r)) = db r"
  using assms by (simp add: trackGeneratorChanges_def db_chain)

lemma db_track_frame:
  assumes "\<forall>c \<in> set old \<union> set new. K \<notin> getKey c ` kinds"
  shows "db (snd (trackGeneratorChanges fl g old new r)) K = db r K"
proof -
  have "\<forall>(ch, c) \<in> set (map (\<lambda>c. (snapshot (db r) c, c)) (allCollectors old new)).
          K \<notin> getKey c ` kinds"
    using assms by (simp add: set_allCollectors)
  then show ?thesis
    by (simp add: trackGeneratorChanges_def db_chain fold_apply_frame)
qed

lemma db_track_affected:
  assumes "\<forall>n \<in> set old \<union> set new. \<not> fl (readCommand n)"
    and "c \<in> set old \<union> set new" and "k \<in> kinds"
  shows "db (snd (trackGeneratorChanges fl g old new r)) (getKey c k) =
         applyCallback fl (generator_id g) old new (snapshot (db r) c) c (db r) (getKey c k)"
proof -
  let ?ps = "map (\<lambda>c. (snapshot (db r) c, c)) (allCollectors old new)"
  have d: "distinct (map snd ?ps)"
    by (simp add: comp_def distinct_allCollectors)
  have m: "(snapshot (db r) c, c) \<in> set ?ps"
    using assms(2) by (simp add: set_allCollectors)
  have "db (snd (trackGeneratorChanges fl g old new r)) (getKey c k) =
        fold (\<lambda>(ch, c). applyCallback fl (generator_id g) old new ch c) ?ps (db r) (getKey c k)"
    using assms(1) by (simp add: trackGeneratorChanges_def db_chain)
  also have "\<dots> = applyCallback fl (generator_id g) old new (snapshot (db r) c) c (db r)
                     (getKey c k)"
    using assms(3) by (intro fold_apply_member [OF d m]) simp
  finally show ?thesis .
qed


lemma kinds_mem [simp]: "ADDED \<in> kinds" "DELETED \<in> kinds" "UPDATED \<in> kinds"
  by (simp_all add: kinds_def)

lemma applyCallback_at:
  assumes "k \<in> kinds"
  shows "applyCallback fl e old new chg c d (getKey c k) =
     (let u = fst (determineChange e old new chg c);
          ch = snd (determineChange e old new chg c);
          S = d (getKey c k);
          S1 = (if u = JStr k \<and> \<not> fl (SREM (getKey c k) e) then S - {e} else S)
      in if ch = JStr k \<and> \<not> fl (SADD (getKey c k) e) then insert e S1 else S1)"
  using assms
  by (auto simp: applyCallback_def db_collectorCallback db_addToSet db_removeFromSet Let_def
      getKey_same_collector split: jsval.splits)

lemma pending_track_affected:
  assumes "c \<in> set old \<union> set new" and "k \<in> kinds"
  shows "pending (snd (trackGeneratorChanges noFaults g old new r)) c k =
     (let u = fst (determineChange (generator_id g) old new (snapshot (db r) c) c);
          ch = snd (determineChange (generator_id g) old new (snapshot (db r) c) c);
          S = pending r c k;
          S1 = (if u = JStr k then S - {generator_id g} else S)
      in if ch = JStr k then insert (generator_id g) S1 else S1)"
proof -
  have "\<forall>n \<in> set old \<union> set new. \<not> noFaults (readCommand n)"
    by (simp add: noFaults_def)
  then show ?thesis
    using assms by (simp add: pending_def db_track_affected applyCallback_at noFaults_def)
qed

lemma pending_track_unaffected:
  assumes "c \<notin> set old \<union> set new" and "k \<in> kinds"
  shows "pending (snd (trackGeneratorChanges fl g old new r)) c k = pending r c k"
proof -
  have "\<forall>c' \<in> set old \<union> set new. getKey c k \<notin> getKey c' ` kinds"
    using assms by (auto simp: getKey_inject)
  then show ?thesis by (simp add: pending_def db_track_frame)
qed

lemma fold_apply_other_id:
  assumes "x \<noteq> e"
  shows "x \<in> fold (\<lambda>(ch, c). applyCallback fl e old new ch c) ps d K \<longleftrightarrow> x \<in> d K"
proof (induction ps arbitrary: d)
  case Nil
  show ?case by simp
next
  case (Cons p ps)
  obtain ch c where p: "p = (ch, c)" by (cases p)
  have "x \<in> fold (\<lambda>(ch, c). applyCallback fl e old new ch c) ps
               (applyCallback fl e old new ch c d) K
        \<longleftrightarrow> x \<in> applyCallback fl e old new ch c d K"
    by (rule Cons.IH)
  also have "\<dots> \<longleftrightarrow> x \<in> d K"
    by (rule applyCallback_other_id [OF assms])
  finally show ?case by (simp add: p)
qed

lemma track_other_id:
  assumes "x \<noteq> generator_id g"
  shows "x \<in> db (snd (trackGeneratorChanges fl g old new r)) K \<longleftrightarrow> x \<in> db r K"
  by (simp add: trackGeneratorChanges_def db_chain fold_apply_other_id [OF assms])

subsection \<open>The commands sent\<close>

lemma sent_removeFromSet:
  "sent (snd (removeFromSet fl c u e r)) = sent r @ kindCommand SREM c u e"
  by (simp add: removeFromSet_def sremAsync_def send_def Let_def kindCommand_def kinds_def
      split: jsval.splits)

lemma sent_addToSet:
  "sent (snd (addToSet fl c u e r)) = sent r @ kindCommand SADD c u e"
  by (simp add: addToSet_def saddAsync_def send_def Let_def kindCommand_def kinds_def
      split: jsval.splits)

lemma sent_collectorCallback:
  "sent (snd (collectorCallback fl e old new chg c r)) = sent r @ writeCommands e old new chg c"
  by (simp add: collectorCallback_def case_prod_beta sent_addToSet sent_removeFromSet
      writeCommands_def)

lemma sent_forEachCollector:
  "sent (snd (forEachCollector fl e old new ps r)) =
     sent r @ concat (map (\<lambda>(chg, c). writeCommands e old new chg c) ps)"
proof (induction ps arbitrary: r)
  case Nil
  show ?case by simp
next
  case (Cons p ps)
  obtain chg c where p: "p = (chg, c)" by (cases p)
  have "snd (forEachCollector fl e old new (p # ps) r) =
        snd (forEachCollector fl e old new ps (snd (collectorCallback fl e old new chg c r)))"
    by (simp add: p case_prod_beta)
  then show ?case by (simp add: Cons.IH sent_collectorCallback p)
qed

lemma sent_mapGetChangedIds:
  "sent (snd (mapGetChangedIds fl names r)) = sent r @ map readCommand names"
  by (induction names arbitrary: r)
    (simp_all add: getChangedIds_eq case_prod_beta send_def)

lemma sent_chain:
  "sent (snd (trackGeneratorChanges_chain fl g old new r)) =
     sent r @ map readCommand (allCollectors old new) @
     (if \<exists>n \<in> set old \<union> set new. fl (readCommand n) then []
      else concat (map (\<lambda>c. writeCommands (generator_id g) old new (snapshot (db r) c) c)
             (allCollectors old new)))"
proof -
  obtain reads r1 where m: "mapGetChangedIds fl (allCollectors old new) r = (reads, r1)"
    by (cases "mapGetChangedIds fl (allCollectors old new) r")
  have r1: "sent r1 = sent r @ map readCommand (allCollectors old new)"
    using sent_mapGetChangedIds [of fl "allCollectors old new" r] m by simp
  have reads: "Promise_all reads =
      (if \<exists>n \<in> set old \<union> set new. fl (readCommand n) then Inl StoreError
       else Inr (map (snapshot (db r)) (allCollectors old new)))"
    using fst_mapGetChangedIds [of fl "allCollectors old new" r] m
    by (simp add: Promise_all_reads set_allCollectors)
  show ?thesis
    by (simp add: chain_unfold Let_def m reads r1 case_prod_beta
        sent_forEachCollector zip_map_self comp_def)
qed

subsection \<open>Failing commands\<close>

lemma exFaults_reads: "\<not> exFaults (readCommand n)"
  by (simp add: exFaults_def readCommand_def)

lemma pending_track_faults:
  assumes "\<forall>n \<in> set old \<union> set new. \<not> fl (readCommand n)"
    and "c \<in> set old \<union> set new" and "k \<in> kinds"
  shows "pending (snd (trackGeneratorChanges fl g old new r)) c k =
     (let u = fst (determineChange (generator_id g) old new (snapshot (db r) c) c);
          ch = snd (determineChange (generator_id g) old new (snapshot (db r) c) c);
          S = pending r c k;
          S1 = (if u = JStr k \<and> \<not> fl (SREM (getKey c k) (generator_id g))
                then S - {generator_id g} else S)
      in if ch = JStr k \<and> \<not> fl (SADD (getKey c k) (generator_id g))
         then insert (generator_id g) S1 else S1)"
  using assms by (simp add: pending_def db_track_affected applyCallback_at)

subsection \<open>Two calls in a row\<close>

lemma fst_reads:
  "fst (trackGeneratorChanges_reads noFaults old new r) =
     map (\<lambda>n. Inr (snapshot (db r) n)) (allCollectors old new)"
  by (simp add: trackGeneratorChanges_reads_def fst_mapGetChangedIds noFaults_def)

lemma db_reads: "db (snd (trackGeneratorChanges_reads fl old new r)) = db r"
  by (simp add: trackGeneratorChanges_reads_def db_mapGetChangedIds)

lemma Promise_all_Inr: "Promise_all (map (\<lambda>n. Inr (f n)) names) = Inr (map f names)"
  by (induction names) simp_all

lemma db_then:
  "db (snd (trackGeneratorChanges_then fl g old new
              (map (\<lambda>n. Inr (snapshot d n)) (allCollectors old new)) r)) =
     fold (\<lambda>(ch, c). applyCallback fl (generator_id g) old new ch c)
       (map (\<lambda>c. (snapshot d c, c)) (allCollectors old new)) (db r)"
  by (simp add: trackGeneratorChanges_then_def Let_def Promise_all_Inr case_prod_beta
      db_forEachCollector zip_map_self)

lemma db_backToBack:
  "db (backToBack noFaults g old1 new1 old2 new2 r) =
     fold (\<lambda>(ch, c). applyCallback noFaults (generator_id g) old2 new2 ch c)
       (map (\<lambda>c. (snapshot (db r) c, c)) (allCollectors old2 new2))
       (fold (\<lambda>(ch, c). applyCallback noFaults (generator_id g) old1 new1 ch c)
          (map (\<lambda>c. (snapshot (db r) c, c)) (allCollectors old1 new1)) (db r))"
proof -
  obtain reads1 r1 where a: "trackGeneratorChanges_reads noFaults old1 new1 r = (reads1, r1)"
    by (cases "trackGeneratorChanges_reads noFaults old1 new1 r")
  obtain reads2 r2 where b: "trackGeneratorChanges_reads noFaults old2 new2 r1 = (reads2, r2)"
    by (cases "trackGeneratorChanges_reads noFaults old2 new2 r1")
  have r1: "db r1 = db r" using db_reads [of noFaults old1 new1 r] a by simp
  have r2: "db r2 = db r" using db_reads [of noFaults old2 new2 r1] b r1 by simp
  have reads1: "reads1 = map (\<lambda>n. Inr (snapshot (db r) n)) (allCollectors old1 new1)"
    using fst_reads [of old1 new1 r] a by simp
  have reads2: "reads2 = map (\<lambda>n. Inr (snapshot (db r) n)) (allCollectors old2 new2)"
    using fst_reads [of old2 new2 r1] b r1 by simp
  have "backToBack noFaults g old1 new1 old2 new2 r =
        snd (trackGeneratorChanges_then noFaults g old2 new2 reads2
          (snd (trackGeneratorChanges_then noFaults g old1 new1 reads1 r2)))"
    by (simp add: backToBack_def a b case_prod_beta)
  then show ?thesis
    by (simp add: reads1 reads2 db_then r2)
qed

subsection \<open>Compaction\<close>

text \<open>
  Claim C1, as stated, fails. The claim says that giving a generator with nothing pending
  to collector \<open>C\<close> and taking it away right afterwards leaves its id in none of
  \<open>C\<close>'s three sets. When the second call is made right after the first, the reads of
  both calls are sent before any write: both calls find nothing pending, and the id
  ends in the added and in the deleted set.
\<close>

theorem back_to_back_add_delete_counterexample:
  "generator_id exGenerator \<notin> pending exEmpty ''A'' ADDED \<and>
   generator_id exGenerator \<notin> pending exEmpty ''A'' DELETED \<and>
   generator_id exGenerator \<notin> pending exEmpty ''A'' UPDATED \<and>
   generator_id exGenerator \<in>
     pending (backToBack noFaults exGenerator [] [''A''] [''A''] [] exEmpty) ''A'' ADDED \<and>
   generator_id exGenerator \<in>
     pending (backToBack noFaults exGenerator [] [''A''] [''A''] [] exEmpty) ''A'' DELETED"
  unfolding pending_def db_backToBack
  by (simp add: allCollectors_def applyCallback_at determineChange_def snapshot_def Let_def
      kinds_distinct NOCHANGE_def noFaults_def getKey_same_collector exEmpty_def)

text \<open>
  Claim C1, amended. A generator none of whose changes is pending for collector \<open>C\<close>
  is first given to \<open>C\<close> (old collectors none, new collectors \<open>C\<close>) and, once the
  commands of that call are settled, taken away again (old collectors \<open>C\<close>, new
  collectors none), with no reset in between and every command succeeding. Afterwards
  its id is in none of \<open>C\<close>'s three sets.
\<close>

theorem add_then_delete_cancels:
  assumes "generator_id g \<notin> pending r C ADDED"
    and "generator_id g \<notin> pending r C DELETED"
    and "generator_id g \<notin> pending r C UPDATED"
  shows "generator_id g \<notin> pending
            (snd (trackGeneratorChanges noFaults g [C] []
               (snd (trackGeneratorChanges noFaults g [] [C] r)))) C ADDED \<and>
         generator_id g \<notin> pending
            (snd (trackGeneratorChanges noFaults g [C] []
               (snd (trackGeneratorChanges noFaults g [] [C] r)))) C DELETED \<and>
         generator_id g \<notin> pending
            (snd (trackGeneratorChanges noFaults g [C] []
               (snd (trackGeneratorChanges noFaults g [] [C] r)))) C UPDATED"
  using assms
  by (simp add: pending_track_affected determineChange_def snapshot_def Let_def kinds_distinct
      NOCHANGE_def pending_def [symmetric])

theorem add_then_delete_cancels_witness:
  "generator_id exGenerator \<notin> pending exEmpty ''A'' ADDED \<and>
   generator_id exGenerator \<notin> pending exEmpty ''A'' DELETED \<and>
   generator_id exGenerator \<notin> pending exEmpty ''A'' UPDATED \<and>
   generator_id exGenerator \<notin> pending
      (snd (trackGeneratorChanges noFaults exGenerator [''A''] []
         (snd (trackGeneratorChanges noFaults exGenerator [] [''A''] exEmpty)))) ''A'' ADDED \<and>
   generator_id exGenerator \<notin> pending
      (snd (trackGeneratorChanges noFaults exGenerator [''A''] []
         (snd (trackGeneratorChanges noFaults exGenerator [] [''A''] exEmpty)))) ''A'' DELETED \<and>
   generator_id exGenerator \<notin> pending
      (snd (trackGeneratorChanges noFaults exGenerator [''A''] []
         (snd (trackGeneratorChanges noFaults exGenerator [] [''A''] exEmpty)))) ''A'' UPDATED"
proof -
  have h: "generator_id exGenerator \<notin> pending exEmpty ''A'' ADDED"
    "generator_id exGenerator \<notin> pending exEmpty ''A'' DELETED"
    "generator_id exGenerator \<notin> pending exEmpty ''A'' UPDATED"
    by (simp_all add: pending_def exEmpty_def)
  show ?thesis
    using h add_then_delete_cancels [OF h] by simp
qed

text \<open>
  Claim C2, as stated, fails. The claim says that taking a generator with nothing pending
  away from collector \<open>C\<close> and giving it back right afterwards leaves its id in
  \<open>C\<close>'s updated set only. When the second call is made right after the first, the
  reads of both calls are sent before any write: both calls find nothing pending, and
  the id ends in the deleted and in the added set and not in the updated set.
\<close>

theorem back_to_back_delete_add_counterexample:
  "generator_id exGenerator \<notin> pending exEmpty ''A'' ADDED \<and>
   generator_id exGenerator \<notin> pending exEmpty ''A'' DELETED \<and>
   generator_id exGenerator \<notin> pending exEmpty ''A'' UPDATED \<and>
   generator_id exGenerator \<notin>
     pending (backToBack noFaults exGenerator [''A''] [] [] [''A''] exEmpty) ''A'' UPDATED \<and>
   generator_id exGenerator \<in>
     pending (backToBack noFaults exGenerator [''A''] [] [] [''A''] exEmpty) ''A'' ADDED \<and>
   generator_id exGenerator \<in>
     pending (backToBack noFaults exGenerator [''A''] [] [] [''A''] exEmpty) ''A'' DELETED"
  unfolding pending_def db_backToBack
  by (simp add: allCollectors_def applyCallback_at determineChange_def snapshot_def Let_def
      kinds_distinct NOCHANGE_def noFaults_def getKey_same_collector exEmpty_def)

text \<open>
  Claim C2, amended. A generator none of whose changes is pending for collector \<open>C\<close>
  is first taken away from \<open>C\<close> (old collectors \<open>C\<close>, new collectors none) and,
  once the commands of that call are settled, given back (old collectors none, new
  collectors \<open>C\<close>), every command succeeding. Afterwards its id is in \<open>C\<close>'s
  updated set and in neither the added nor the deleted set.
\<close>

theorem delete_then_add_is_update:
  assumes "generator_id g \<notin> pending r C ADDED"
    and "generator_id g \<notin> pending r C DELETED"
    and "generator_id g \<notin> pending r C UPDATED"
  shows "generator_id g \<in> pending
            (snd (trackGeneratorChanges noFaults g [] [C]
               (snd (trackGeneratorChanges noFaults g [C] [] r)))) C UPDATED \<and>
         generator_id g \<notin> pending
            (snd (trackGeneratorChanges noFaults g [] [C]
               (snd (trackGeneratorChanges noFaults g [C] [] r)))) C ADDED \<and>
         generator_id g \<notin> pending
            (snd (trackGeneratorChanges noFaults g [] [C]
               (snd (trackGeneratorChanges noFaults g [C] [] r)))) C DELETED"
  using assms
  by (simp add: pending_track_affected determineChange_def snapshot_def Let_def kinds_distinct
      NOCHANGE_def pending_def [symmetric])

theorem delete_then_add_is_update_witness:
  "generator_id exGenerator \<notin> pending exEmpty ''A'' ADDED \<and>
   generator_id exGenerator \<notin> pending exEmpty ''A'' DELETED \<and>
   generator_id exGenerator \<notin> pending exEmpty ''A'' UPDATED \<and>
   generator_id exGenerator \<in> pending
      (snd (trackGeneratorChanges noFaults exGenerator [] [''A'']
         (snd (trackGeneratorChanges noFaults exGenerator [''A''] [] exEmpty)))) ''A'' UPDATED \<and>
   generator_id exGenerator \<notin> pending
      (snd (trackGeneratorChanges noFaults exGenerator [] [''A'']
         (snd (trackGeneratorChanges noFaults exGenerator [''A''] [] exEmpty)))) ''A'' ADDED \<and>
   generator_id exGenerator \<notin> pending
      (snd (trackGeneratorChanges noFaults exGenerator [] [''A'']
         (snd (trackGeneratorChanges noFaults exGenerator [''A''] [] exEmpty)))) ''A'' DELETED"
proof -
  have h: "generator_id exGenerator \<notin> pending exEmpty ''A'' ADDED"
    "generator_id exGenerator \<notin> pending exEmpty ''A'' DELETED"
    "generator_id exGenerator \<notin> pending exEmpty ''A'' UPDATED"
    by (simp_all add: pending_def exEmpty_def)
  show ?thesis
    using h delete_then_add_is_update [OF h] by simp
qed

text \<open>
  Claim C3. When the generator's id is in \<open>C\<close>'s updated set and in no other set of
  \<open>C\<close>, taking the generator away from \<open>C\<close> (old collectors \<open>C\<close>, new collectors
  none) puts the id into the deleted set and removes it from the updated set.
\<close>

theorem updated_then_deleted_is_delete:
  assumes "generator_id g \<in> pending r C UPDATED"
    and "generator_id g \<notin> pending r C ADDED"
    and "generator_id g \<notin> pending r C DELETED"
  shows "generator_id g \<in> pending (snd (trackGeneratorChanges noFaults g [C] [] r)) C DELETED \<and>
         generator_id g \<notin> pending (snd (trackGeneratorChanges noFaults g [C] [] r)) C UPDATED"
  using assms
  by (simp add: pending_track_affected determineChange_def snapshot_def Let_def kinds_distinct
      NOCHANGE_def pending_def [symmetric])

theorem updated_then_deleted_is_delete_witness:
  "generator_id exGenerator \<in> pending exUpdated ''A'' UPDATED \<and>
   generator_id exGenerator \<notin> pending exUpdated ''A'' ADDED \<and>
   generator_id exGenerator \<notin> pending exUpdated ''A'' DELETED \<and>
   generator_id exGenerator \<in> pending
      (snd (trackGeneratorChanges noFaults exGenerator [''A''] [] exUpdated)) ''A'' DELETED \<and>
   generator_id exGenerator \<notin> pending
      (snd (trackGeneratorChanges noFaults exGenerator [''A''] [] exUpdated)) ''A'' UPDATED"
proof -
  have h: "generator_id exGenerator \<in> pending exUpdated ''A'' UPDATED"
    "generator_id exGenerator \<notin> pending exUpdated ''A'' ADDED"
    "generator_id exGenerator \<notin> pending exUpdated ''A'' DELETED"
    by (simp_all add: pending_def exUpdated_def exGenerator_def getKey_same_collector
        kinds_distinct)
  show ?thesis
    using h updated_then_deleted_is_delete [OF h] by simp
qed

subsection \<open>Mutual exclusion of the three sets\<close>

text \<open>
  Claim C4, as stated, fails. The claim says that one call, not interleaved with any
  other, keeps an id in at most one of a collector's three sets, for every input. The
  removal and the addition are two commands, and the addition is sent without waiting
  for the removal: when redis rejects the removal from the updated set, the id that was
  in the updated set only ends in the deleted and in the updated set.
\<close>

theorem rejected_removal_counterexample:
  "atMostOne exUpdated ''A'' ''g1'' \<and>
   \<not> atMostOne (snd (trackGeneratorChanges exSremFaults exGenerator [''A''] [] exUpdated))
        ''A'' ''g1''"
proof -
  have rd: "\<forall>n \<in> set [''A''] \<union> set []. \<not> exSremFaults (readCommand n)"
    by (simp add: exSremFaults_def readCommand_def)
  have before: "atMostOne exUpdated ''A'' ''g1''"
    by (simp add: atMostOne_def pending_def exUpdated_def getKey_same_collector kinds_distinct)
  have d: "''g1'' \<in> pending (snd (trackGeneratorChanges exSremFaults exGenerator [''A''] []
      exUpdated)) ''A'' DELETED"
    by (subst pending_track_faults [OF rd])
      (simp_all add: determineChange_def snapshot_def Let_def kinds_distinct exGenerator_def
        exSremFaults_def pending_def exUpdated_def getKey_same_collector)
  have u: "''g1'' \<in> pending (snd (trackGeneratorChanges exSremFaults exGenerator [''A''] []
      exUpdated)) ''A'' UPDATED"
    by (subst pending_track_faults [OF rd])
      (simp_all add: determineChange_def snapshot_def Let_def kinds_distinct exGenerator_def
        exSremFaults_def pending_def exUpdated_def getKey_same_collector)
  show ?thesis
    using before d u by (simp add: atMostOne_def)
qed

text \<open>
  Claim C4, amended. For every collector \<open>c\<close> and every id \<open>x\<close>: when \<open>x\<close> is in at
  most one of \<open>c\<close>'s three sets before a call of \<open>trackGeneratorChanges\<close> that is
  not interleaved with another, and redis rejects no removal of the generator's id from
  a set of \<open>c\<close>, then \<open>x\<close> is in at most one of the three sets after the call,
  whatever the generator, the old collectors and the new collectors are and whatever
  else redis rejects.
\<close>

theorem mutual_exclusivity_preserved:
  assumes "atMostOne r c x"
    and "\<forall>k \<in> kinds. \<not> fl (SREM (getKey c k) (generator_id g))"
  shows "atMostOne (snd (trackGeneratorChanges fl g old new r)) c x"
proof (cases "x = generator_id g")
  case False
  then show ?thesis
    using assms(1) by (simp add: atMostOne_def pending_def track_other_id)
next
  case True
  show ?thesis
  proof (cases "\<exists>n \<in> set old \<union> set new. fl (readCommand n)")
    case True
    then have "db (snd (trackGeneratorChanges fl g old new r)) = db r"
      by (rule db_track_read_failed)
    then show ?thesis
      using assms(1) by (simp add: atMostOne_def pending_def)
  next
    case False
    then have rd: "\<forall>n \<in> set old \<union> set new. \<not> fl (readCommand n)" by simp
    show ?thesis
    proof (cases "c \<in> set old \<union> set new")
      case False
      then show ?thesis
        using assms(1) by (simp add: atMostOne_def pending_track_unaffected)
    next
      case aff: True
      have mem: "c \<in> set old \<or> c \<in> set new" using aff by simp
      have srem: "\<not> fl (SREM (getKey c ADDED) (generator_id g))"
        "\<not> fl (SREM (getKey c DELETED) (generator_id g))"
        "\<not> fl (SREM (getKey c UPDATED) (generator_id g))"
        using assms(2) by simp_all
      show ?thesis
        using assms(1) mem srem unfolding \<open>x = generator_id g\<close>
        by (cases "c \<in> set old"; cases "c \<in> set new";
            cases "generator_id g \<in> pending r c ADDED";
            cases "generator_id g \<in> pending r c DELETED";
            cases "generator_id g \<in> pending r c UPDATED";
            simp add: atMostOne_def pending_track_faults [OF rd aff] determineChange_def
              snapshot_def Let_def kinds_distinct NOCHANGE_def pending_def [symmetric])
    qed
  qed
qed

theorem mutual_exclusivity_preserved_witness:
  "atMostOne exUpdated ''A'' ''g1'' \<and>
   \<not> exFaults (SREM (getKey ''A'' ADDED) (generator_id exGenerator)) \<and>
   \<not> exFaults (SREM (getKey ''A'' DELETED) (generator_id exGenerator)) \<and>
   \<not> exFaults (SREM (getKey ''A'' UPDATED) (generator_id exGenerator)) \<and>
   atMostOne (snd (trackGeneratorChanges exFaults exGenerator [''A''] [] exUpdated)) ''A'' ''g1''"
proof -
  have h1: "atMostOne exUpdated ''A'' ''g1''"
    by (simp add: atMostOne_def pending_def exUpdated_def getKey_same_collector kinds_distinct)
  have h2: "\<forall>k \<in> kinds. \<not> exFaults (SREM (getKey ''A'' k) (generator_id exGenerator))"
    by (simp add: exFaults_def)
  show ?thesis
    using h1 h2 mutual_exclusivity_preserved [OF h1 h2, of "[''A'']" "[]"]
    by (simp add: exFaults_def)
qed

subsection \<open>Unchanged association\<close>

text \<open>
  Claim C5, as stated, fails. The claim says that a call with the same collectors before
  and after leaves the three sets of each of them as they were. For a generator with
  nothing pending the call adds its id to the updated set of the collector.
\<close>

theorem same_collectors_counterexample:
  "pending (snd (trackGeneratorChanges noFaults exGenerator [''A''] [''A''] exEmpty)) ''A'' UPDATED
     \<noteq> pending exEmpty ''A'' UPDATED"
  by (simp add: pending_track_affected determineChange_def snapshot_def Let_def kinds_distinct
      NOCHANGE_def pending_def [symmetric])
    (simp add: pending_def exEmpty_def)

text \<open>
  Claim C5, amended. When the old and the new collectors are the same list \<open>S\<close> and
  every command succeeds, then for each collector in \<open>S\<close> the added and the deleted
  set stay as they were, and the updated set stays as it was when the generator's id is
  already in the added or the deleted set (or in the updated set itself); otherwise the
  id is added to the updated set.
\<close>

theorem same_collectors_effect:
  assumes "c \<in> set S"
  shows "pending (snd (trackGeneratorChanges noFaults g S S r)) c ADDED = pending r c ADDED \<and>
         pending (snd (trackGeneratorChanges noFaults g S S r)) c DELETED = pending r c DELETED \<and>
         pending (snd (trackGeneratorChanges noFaults g S S r)) c UPDATED =
           (if generator_id g \<in> pending r c ADDED \<or> generator_id g \<in> pending r c DELETED
            then pending r c UPDATED
            else insert (generator_id g) (pending r c UPDATED))"
  using assms
  by (auto simp add: pending_track_affected determineChange_def snapshot_def Let_def
      kinds_distinct NOCHANGE_def pending_def [symmetric])

theorem same_collectors_effect_witness:
  "''A'' \<in> set [''A''] \<and>
   pending (snd (trackGeneratorChanges noFaults exGenerator [''A''] [''A''] exEmpty)) ''A'' ADDED
     = pending exEmpty ''A'' ADDED \<and>
   pending (snd (trackGeneratorChanges noFaults exGenerator [''A''] [''A''] exEmpty)) ''A'' DELETED
     = pending exEmpty ''A'' DELETED \<and>
   pending (snd (trackGeneratorChanges noFaults exGenerator [''A''] [''A''] exEmpty)) ''A'' UPDATED
     = {''g1''}"
proof -
  have h: "''A'' \<in> set [''A'']" by simp
  show ?thesis
    using same_collectors_effect [OF h, of exGenerator exEmpty]
    by (simp add: pending_def exEmpty_def exGenerator_def)
qed

subsection \<open>The store operations\<close>

text \<open>
  Claim C6. For every collector, id and change \<open>k\<close> that is none of the three strings
  (the number \<open>NOCHANGE\<close>, \<open>undefined\<close>, any other string or number),
  \<open>removeFromSet\<close> and \<open>addToSet\<close> send no command, leave redis as it is and
  resolve, whatever commands redis would reject.
\<close>

theorem other_kinds_are_noops:
  assumes "k \<noteq> JStr ADDED" and "k \<noteq> JStr DELETED" and "k \<noteq> JStr UPDATED"
  shows "removeFromSet fl C k e r = (Inr (), r) \<and> addToSet fl C k e r = (Inr (), r)"
  using assms by (cases k) (simp_all add: removeFromSet_def addToSet_def)

theorem other_kinds_are_noops_witness:
  "NOCHANGE \<noteq> JStr ADDED \<and> NOCHANGE \<noteq> JStr DELETED \<and> NOCHANGE \<noteq> JStr UPDATED \<and>
   removeFromSet noFaults ''A'' NOCHANGE ''g1'' exEmpty = (Inr (), exEmpty) \<and>
   addToSet noFaults ''A'' NOCHANGE ''g1'' exEmpty = (Inr (), exEmpty)"
proof -
  have h: "NOCHANGE \<noteq> JStr ADDED" "NOCHANGE \<noteq> JStr DELETED" "NOCHANGE \<noteq> JStr UPDATED"
    by (simp_all add: NOCHANGE_def)
  show ?thesis
    using h other_kinds_are_noops [OF h, of noFaults "''A''" "''g1''" exEmpty] by simp
qed

text \<open>
  Claim C7. For every collector and every content of its three sets, when the commands
  of \<open>resetChanges\<close> and \<open>getChangedIds\<close> succeed, \<open>resetChanges\<close> followed by
  \<open>getChangedIds\<close> gives three empty sets; and \<open>getChangedIds\<close> gives three
  empty sets whenever the collector has nothing pending.
\<close>

theorem reset_then_read_is_empty:
  assumes "\<not> fl (DEL (getKey C ADDED) (getKey C DELETED) (getKey C UPDATED))"
    and "\<not> fl (readCommand C)"
  shows "fst (resetChanges fl C r) = Inr () \<and>
         fst (getChangedIds fl C (snd (resetChanges fl C r))) =
           Inr \<lparr>added = {}, deleted = {}, updated = {}\<rparr> \<and>
         (pending r C ADDED = {} \<and> pending r C DELETED = {} \<and> pending r C UPDATED = {} \<longrightarrow>
            fst (getChangedIds fl C r) = Inr \<lparr>added = {}, deleted = {}, updated = {}\<rparr>)"
  using assms
  by (simp add: resetChanges_def delAsync_def send_def Let_def getChangedIds_eq snapshot_def
      pending_def)

theorem reset_then_read_is_empty_witness:
  "\<not> noFaults (DEL (getKey ''A'' ADDED) (getKey ''A'' DELETED) (getKey ''A'' UPDATED)) \<and>
   \<not> noFaults (readCommand ''A'') \<and>
   pending exUpdated ''B'' ADDED = {} \<and> pending exUpdated ''B'' DELETED = {} \<and>
   pending exUpdated ''B'' UPDATED = {} \<and>
   fst (resetChanges noFaults ''A'' exUpdated) = Inr () \<and>
   fst (getChangedIds noFaults ''A'' (snd (resetChanges noFaults ''A'' exUpdated))) =
     Inr \<lparr>added = {}, deleted = {}, updated = {}\<rparr> \<and>
   fst (getChangedIds noFaults ''B'' exUpdated) = Inr \<lparr>added = {}, deleted = {}, updated = {}\<rparr>"
proof -
  have a: "\<not> noFaults (DEL (getKey ''A'' ADDED) (getKey ''A'' DELETED) (getKey ''A'' UPDATED))"
    "\<not> noFaults (readCommand ''A'')"
    by (simp_all add: noFaults_def)
  have b: "\<not> noFaults (DEL (getKey ''B'' ADDED) (getKey ''B'' DELETED) (getKey ''B'' UPDATED))"
    "\<not> noFaults (readCommand ''B'')"
    by (simp_all add: noFaults_def)
  have e: "pending exUpdated ''B'' ADDED = {}" "pending exUpdated ''B'' DELETED = {}"
    "pending exUpdated ''B'' UPDATED = {}"
    by (simp_all add: pending_def exUpdated_def getKey_def)
  show ?thesis
    using a e reset_then_read_is_empty [OF a, of exUpdated]
      reset_then_read_is_empty [OF b, of exUpdated]
    by simp
qed

subsection \<open>No collectors\<close>

text \<open>
  Claim C8. When both the old and the new collectors are empty,
  \<open>trackGeneratorChanges\<close> sends no command, neither a read nor a write: redis, with
  the list of commands sent, is as before.
\<close>

theorem no_collectors_no_commands:
  "trackGeneratorChanges fl g [] [] r = (JUndefined, r)"
  by (simp add: trackGeneratorChanges_def chain_unfold allCollectors_def)

theorem no_collectors_no_commands_witness:
  "trackGeneratorChanges noFaults exGenerator [] [] exUpdated = (JUndefined, exUpdated)"
  by (rule no_collectors_no_commands)

subsection \<open>Failure of one collector's commands\<close>

text \<open>
  Claim C9, as stated, fails. The claim says that when the mutation of one collector fails
  and the others succeed, the caller is given the outcome for each collector. In the
  example the addition for collector \<open>A\<close> is rejected (the promise chain is rejected
  and the id is missing from \<open>A\<close>'s deleted set, where a run without failure puts it),
  the addition for collector \<open>B\<close> succeeds, and the caller gets the same value
  \<open>undefined\<close> as from the run in which nothing fails.
\<close>

theorem no_result_reported_counterexample:
  "fst (trackGeneratorChanges_chain exFaults exGenerator [''A''] [''B''] exEmpty) = Inl StoreError \<and>
   ''g1'' \<notin> pending (snd (trackGeneratorChanges exFaults exGenerator [''A''] [''B''] exEmpty))
      ''A'' DELETED \<and>
   ''g1'' \<in> pending (snd (trackGeneratorChanges exFaults exGenerator [''A''] [''B''] exEmpty))
      ''B'' ADDED \<and>
   ''g1'' \<in> pending (snd (trackGeneratorChanges noFaults exGenerator [''A''] [''B''] exEmpty))
      ''A'' DELETED \<and>
   fst (trackGeneratorChanges exFaults exGenerator [''A''] [''B''] exEmpty) =
   fst (trackGeneratorChanges noFaults exGenerator [''A''] [''B''] exEmpty)"
proof -
  have chain: "fst (trackGeneratorChanges_chain exFaults exGenerator [''A''] [''B''] exEmpty) =
      Inl StoreError"
    by (simp add: chain_unfold allCollectors_def getChangedIds_eq
        exFaults_reads Let_def collectorCallback_def determineChange_def snapshot_def
        exEmpty_def db_send removeFromSet_def addToSet_def saddAsync_def kinds_distinct
        exFaults_def exGenerator_def)
  have rd: "\<forall>n \<in> set [''A''] \<union> set [''B'']. \<not> exFaults (readCommand n)"
    by (simp add: exFaults_reads)
  have a: "''g1'' \<notin> pending (snd (trackGeneratorChanges exFaults exGenerator [''A''] [''B'']
      exEmpty)) ''A'' DELETED"
    by (subst pending_track_faults [OF rd])
      (simp_all add: determineChange_def snapshot_def Let_def kinds_distinct exGenerator_def
        exFaults_def pending_def exEmpty_def)
  have b: "''g1'' \<in> pending (snd (trackGeneratorChanges exFaults exGenerator [''A''] [''B'']
      exEmpty)) ''B'' ADDED"
    by (subst pending_track_faults [OF rd])
      (simp_all add: determineChange_def snapshot_def Let_def kinds_distinct exGenerator_def
        exFaults_def pending_def exEmpty_def getKey_def)
  have c: "''g1'' \<in> pending (snd (trackGeneratorChanges noFaults exGenerator [''A''] [''B'']
      exEmpty)) ''A'' DELETED"
    by (simp add: pending_track_affected determineChange_def snapshot_def Let_def
        kinds_distinct exGenerator_def exEmpty_def)
  show ?thesis
    using chain a b c by (simp add: trackGeneratorChanges_def)
qed

text \<open>
  Claim C9, amended. \<open>trackGeneratorChanges\<close> gives its caller \<open>undefined\<close>, whether
  or not a command fails. When all reads of the pending sets succeed, every collector
  whose own removal and addition commands succeed ends with the pending sets that a call
  without any failure gives it, whatever happens to the commands of the other collectors.
\<close>

theorem failure_of_one_collector_leaves_others:
  assumes "\<forall>n \<in> set old \<union> set new. \<not> fl (readCommand n)"
    and "\<forall>k \<in> kinds. \<not> fl (SREM (getKey c k) (generator_id g)) \<and>
                      \<not> fl (SADD (getKey c k) (generator_id g))"
    and "k \<in> kinds"
  shows "fst (trackGeneratorChanges fl g old new r) = JUndefined \<and>
         pending (snd (trackGeneratorChanges fl g old new r)) c k =
         pending (snd (trackGeneratorChanges noFaults g old new r)) c k"
proof (cases "c \<in> set old \<union> set new")
  case True
  have "pending (snd (trackGeneratorChanges fl g old new r)) c k =
        pending (snd (trackGeneratorChanges noFaults g old new r)) c k"
    using assms(2,3)
    by (simp add: pending_track_faults [OF assms(1) True assms(3)]
        pending_track_affected [OF True assms(3)])
  then show ?thesis by (simp add: trackGeneratorChanges_def)
next
  case False
  then show ?thesis
    using assms(3) by (simp add: pending_track_unaffected) (simp add: trackGeneratorChanges_def)
qed

theorem failure_of_one_collector_leaves_others_witness:
  "\<not> exFaults (readCommand ''A'') \<and> \<not> exFaults (readCommand ''B'') \<and>
   \<not> exFaults (SREM (getKey ''B'' ADDED) ''g1'') \<and> \<not> exFaults (SADD (getKey ''B'' ADDED) ''g1'') \<and>
   ADDED \<in> kinds \<and>
   fst (trackGeneratorChanges exFaults exGenerator [''A''] [''B''] exEmpty) = JUndefined \<and>
   pending (snd (trackGeneratorChanges exFaults exGenerator [''A''] [''B''] exEmpty)) ''B'' ADDED =
   pending (snd (trackGeneratorChanges noFaults exGenerator [''A''] [''B''] exEmpty)) ''B'' ADDED"
proof -
  have h1: "\<forall>n \<in> set [''A''] \<union> set [''B'']. \<not> exFaults (readCommand n)"
    by (simp add: exFaults_reads)
  have h2: "\<forall>k \<in> kinds. \<not> exFaults (SREM (getKey ''B'' k) (generator_id exGenerator)) \<and>
                 \<not> exFaults (SADD (getKey ''B'' k) (generator_id exGenerator))"
    by (simp add: exFaults_def kinds_def getKey_def kind_defs)
  have h3: "ADDED \<in> kinds" by simp
  show ?thesis
    using h1 h2 h3 failure_of_one_collector_leaves_others [OF h1 h2 h3, of exEmpty]
    by (simp add: exGenerator_def)
qed

subsection \<open>What a call leaves alone\<close>

text \<open>
  Claim C10. For every call of \<open>trackGeneratorChanges\<close>: the three sets of a
  collector that is in neither list are unchanged; in every set of every collector, the
  membership of each id other than the generator's is unchanged; and the collectors the
  call works on are the names of both lists, each once: when every command succeeds the
  call sends one read for each of them and then the commands of one run of the callback
  for each of them.
\<close>

theorem track_frame:
  assumes "c \<notin> set old \<union> set new" and "k \<in> kinds" and "x \<noteq> generator_id g"
  shows "pending (snd (trackGeneratorChanges fl g old new r)) c k = pending r c k \<and>
         (x \<in> pending (snd (trackGeneratorChanges fl g old new r)) c' k' \<longleftrightarrow>
            x \<in> pending r c' k') \<and>
         distinct (allCollectors old new) \<and>
         set (allCollectors old new) = set old \<union> set new \<and>
         sent (snd (trackGeneratorChanges noFaults g old new r)) =
           sent r @ map readCommand (allCollectors old new) @
           concat (map (\<lambda>c. writeCommands (generator_id g) old new (snapshot (db r) c) c)
             (allCollectors old new))"
proof -
  have "pending (snd (trackGeneratorChanges fl g old new r)) c k = pending r c k"
    using assms(1,2) by (rule pending_track_unaffected)
  moreover have "x \<in> pending (snd (trackGeneratorChanges fl g old new r)) c' k' \<longleftrightarrow>
      x \<in> pending r c' k'"
    using assms(3) by (simp add: pending_def track_other_id)
  moreover have "sent (snd (trackGeneratorChanges noFaults g old new r)) =
           sent r @ map readCommand (allCollectors old new) @
           concat (map (\<lambda>c. writeCommands (generator_id g) old new (snapshot (db r) c) c)
             (allCollectors old new))"
    by (simp add: trackGeneratorChanges_def sent_chain noFaults_def)
  ultimately show ?thesis
    by (simp add: distinct_allCollectors set_allCollectors)
qed

theorem track_frame_witness:
  "''C'' \<notin> set [''A'', ''B'', ''A''] \<union> set [''B''] \<and> ADDED \<in> kinds \<and>
   ''g2'' \<noteq> generator_id exGenerator \<and>
   pending (snd (trackGeneratorChanges noFaults exGenerator [''A'', ''B'', ''A''] [''B''] exUpdated))
     ''C'' ADDED = pending exUpdated ''C'' ADDED \<and>
   ''g2'' \<notin> pending (snd (trackGeneratorChanges noFaults exGenerator [''A'', ''B'', ''A''] [''B'']
     exUpdated)) ''A'' UPDATED \<and>
   allCollectors [''A'', ''B'', ''A''] [''B''] = [''A'', ''B'']"
proof -
  have h: "''C'' \<notin> set [''A'', ''B'', ''A''] \<union> set [''B'']" "ADDED \<in> kinds"
    "''g2'' \<noteq> generator_id exGenerator"
    by (simp_all add: exGenerator_def)
  have a: "allCollectors [''A'', ''B'', ''A''] [''B''] = [''A'', ''B'']"
    by (simp add: allCollectors_def)
  have d: "''g2'' \<notin> pending exUpdated ''A'' UPDATED"
    by (simp add: pending_def exUpdated_def)
  show ?thesis
    using h a d track_frame [OF h, of noFaults exUpdated "''A''" UPDATED]
    by simp
qed

end
